theory Spec2Isabelle
  imports Complex_Main
begin

section \<open>The sound-card callback and its bounded queue (\<^verbatim>\<open>iq_af.py\<close>)\<close>

text \<open>
  The module keeps its state in globals, shared between the PortAudio callback thread and
  the main thread. They are the fields of one record; \<open>cbskip\<close> is the global that
  \<open>DataInput.Restart\<close> sets from \<open>opt.skip\<close>. Python integers are unbounded, so
  the counters are \<open>int\<close>. \<open>cbqueue\<close> is the \<open>queue.Queue(MAXQUEUELEN)\<close>, oldest
  block first; \<open>queueLock\<close> is \<open>True\<close> while the \<open>threading.Lock\<close> is held.
\<close>

record 'a cb_state =
  led_underrun_ct :: int
  cbcount :: int
  cbqueue :: "'a list"
  cbskip_ct :: int
  queueLock :: bool
  cbfirst :: int
  cbskip :: int

definition MAXQUEUELEN :: nat where
  "MAXQUEUELEN = 32"

text \<open>PortAudio's status flag for an input overflow (\<open>pa.paInputOverflow\<close>, the value 2).\<close>

definition paInputOverflow :: int where
  "paInputOverflow = 2"

text \<open>The state of the module right after import, with the skip value of \<open>Restart\<close>.\<close>

definition cb_init :: "int \<Rightarrow> 'a cb_state" where
  "cb_init skip = \<lparr> led_underrun_ct = 0, cbcount = 0, cbqueue = [], cbskip_ct = 0,
     queueLock = False, cbfirst = 1, cbskip = skip \<rparr>"

text \<open>
  How one call of the callback ends. The source returns \<open>(None, pa.paContinue)\<close> at four
  places and leaves through \<open>sys.exit()\<close> at one; a call that finds the lock held never
  comes back from \<open>queueLock.acquire()\<close>.
  \<^item> \<open>Skipped\<close>: discarded by the skip counter (lines 71 and 80);
  \<^item> \<open>Tossed\<close>: one of the first \<open>cbfirst\<close> buffers (line 85);
  \<^item> \<open>Enqueued\<close>: the buffer was put on the queue and the call returned (line 94);
  \<^item> \<open>ExitFull\<close>: \<open>queue.Full\<close> was raised, the handler printed its message and
    called \<open>sys.exit()\<close>, which raises \<open>SystemExit\<close> in the callback (line 93);
  \<^item> \<open>LockWait\<close>: the call waits for the lock (line 87).
\<close>

datatype cb_result = Skipped | Tossed | Enqueued | ExitFull | LockWait

text \<open>
  Lines 68 to 80, the decision of the skip counter: for the skip value and the counter it
  gives whether the buffer goes on (\<open>True\<close>) and the new counter. The two \<open>if\<close>
  statements of the source test \<open>cbskip > 0\<close> and \<open>cbskip < 0\<close>, so at most one of
  them runs.
\<close>

definition skip_decide :: "int \<Rightarrow> int \<Rightarrow> bool \<times> int" where
  "skip_decide skip ct =
     (if skip > 0 then
        (if ct \<ge> skip then (False, 0) else (True, ct + 1))
      else if skip < 0 then
        (if ct \<ge> - skip then (True, 0) else (False, ct + 1))
      else (True, ct))"

text \<open>
  \<open>pa_callback_iqin\<close>, lines 58 to 94. \<open>put_nowait\<close> raises \<open>queue.Full\<close> when the
  queue holds \<open>MAXQUEUELEN\<close> blocks; the handler exits without releasing the lock that
  line 87 acquired.
\<close>

definition pa_callback_iqin :: "'a \<Rightarrow> int \<Rightarrow> 'a cb_state \<Rightarrow> cb_result \<times> 'a cb_state" where
  "pa_callback_iqin in_data status s =
     (let s1 = s\<lparr>cbcount := cbcount s + 1\<rparr>;
          s2 = (if status = paInputOverflow then s1\<lparr>led_underrun_ct := 1\<rparr> else s1);
          (keep, ct) = skip_decide (cbskip s2) (cbskip_ct s2);
          s3 = s2\<lparr>cbskip_ct := ct\<rparr>
      in if \<not> keep then (Skipped, s3)
         else if cbfirst s3 > 0 then (Tossed, s3\<lparr>cbfirst := cbfirst s3 - 1\<rparr>)
         else if queueLock s3 then (LockWait, s3)
         else if length (cbqueue s3) \<ge> MAXQUEUELEN then (ExitFull, s3\<lparr>queueLock := True\<rparr>)
         else (Enqueued, s3\<lparr>cbqueue := cbqueue s3 @ [in_data]\<rparr>))"

text \<open>
  The consumer's critical section, lines 197 to 199: acquire the lock, take the oldest
  block, release the lock. \<open>cbqueue.get(True, 4.)\<close> on an empty queue raises
  \<open>queue.Empty\<close> after four seconds, and the release of line 199 is not reached.
  \<open>Stalled\<close> is the \<open>sys.exit()\<close> of line 195.
\<close>

datatype 'a get_result = Data 'a | QueueEmpty | GetLockWait | Stalled

definition locked_get :: "'a cb_state \<Rightarrow> 'a get_result \<times> 'a cb_state" where
  "locked_get s =
     (if queueLock s then (GetLockWait, s)
      else (case cbqueue s of
              [] \<Rightarrow> (QueueEmpty, s\<lparr>queueLock := True\<rparr>)
            | x # xs \<Rightarrow> (Data x, s\<lparr>cbqueue := xs\<rparr>)))"

text \<open>
  The two threads touch the queue only inside the callback and inside the consumer's
  critical section, and the queue serialises them. An interleaving is therefore a list of
  events, each run to its end. The run goes on whatever a step returns, so every
  execution of the program is a prefix of some run.
\<close>

datatype 'a event = Push 'a int | Pop

fun step :: "'a cb_state \<Rightarrow> 'a event \<Rightarrow> 'a cb_state" where
  "step s (Push in_data status) = snd (pa_callback_iqin in_data status s)"
| "step s Pop = snd (locked_get s)"

fun run :: "'a cb_state \<Rightarrow> 'a event list \<Rightarrow> 'a cb_state" where
  "run s [] = s"
| "run s (e # es) = run (step s e) es"

text \<open>
  What a list of buffers delivered to the callback, one call after the other, gives: the
  result of each call, and the state at the end.
\<close>

fun cb_results :: "'a cb_state \<Rightarrow> ('a \<times> int) list \<Rightarrow> cb_result list" where
  "cb_results s [] = []"
| "cb_results s ((in_data, status) # bs) =
     fst (pa_callback_iqin in_data status s) # cb_results (snd (pa_callback_iqin in_data status s)) bs"

fun producer :: "'a cb_state \<Rightarrow> ('a \<times> int) list \<Rightarrow> 'a cb_state" where
  "producer s [] = s"
| "producer s ((in_data, status) # bs) = producer (snd (pa_callback_iqin in_data status s)) bs"

text \<open>The buffers that passed the skip counter: every result but \<open>Skipped\<close>.\<close>

definition kept :: "cb_result list \<Rightarrow> nat" where
  "kept rs = length (filter (\<lambda>r. r \<noteq> Skipped) rs)"

text \<open>
  The skip counter alone, run \<open>m\<close> times from a skip value and a counter: how many
  buffers it lets through. It is the yardstick for \<open>kept\<close> in the proofs below.
\<close>

fun kept_from :: "int \<Rightarrow> int \<Rightarrow> nat \<Rightarrow> nat" where
  "kept_from skip ct 0 = 0"
| "kept_from skip ct (Suc m) =
     (if fst (skip_decide skip ct) then 1 else 0) + kept_from skip (snd (skip_decide skip ct)) m"

text \<open>
  \<open>DataInput.get_queued_data\<close>, lines 189 to 200. The loop of lines 191 to 196 polls
  \<open>cbqueue.qsize()\<close> and sleeps a tenth of a second after each poll that found fewer than
  four blocks. What the callback thread does meanwhile is given by a schedule: \<open>sched k\<close>
  are the buffers delivered between poll \<open>k\<close> and the consumer's next access to the
  queue. The loop returns whether the queue filled, the number of sleeps, and the state.
\<close>

function wait_for_fill ::
  "(nat \<Rightarrow> ('a \<times> int) list) \<Rightarrow> int \<Rightarrow> nat \<Rightarrow> 'a cb_state \<Rightarrow> bool \<times> nat \<times> 'a cb_state" where
  "wait_for_fill sched timeout k s =
     (if length (cbqueue s) < 4 then
        (if timeout - 1 \<le> 0 then (False, k, s)
         else wait_for_fill sched (timeout - 1) (Suc k) (producer s (sched k)))
      else (True, k, s))"
  by pat_completeness auto
termination
  by (relation "measure (\<lambda>(sched, timeout, k, s). nat timeout)") auto

definition get_queued_data ::
  "(nat \<Rightarrow> ('a \<times> int) list) \<Rightarrow> 'a cb_state \<Rightarrow> 'a get_result \<times> nat \<times> 'a cb_state" where
  "get_queued_data sched s =
     (case wait_for_fill sched 40 0 s of
        (False, k, s') \<Rightarrow> (Stalled, k, s')
      | (True, k, s') \<Rightarrow>
          (case locked_get (producer s' (sched k)) of (r, s'') \<Rightarrow> (r, k, s'')))"

text \<open>
  The state that poll \<open>k\<close> of the loop sees, when the loop gets that far: the callbacks of
  the schedule up to there have run.
\<close>

fun poll_state :: "(nat \<Rightarrow> ('a \<times> int) list) \<Rightarrow> 'a cb_state \<Rightarrow> nat \<Rightarrow> 'a cb_state" where
  "poll_state sched s 0 = s"
| "poll_state sched s (Suc k) = producer (poll_state sched s k) (sched k)"

section \<open>The graticule and the transform size (\<^verbatim>\<open>iq.py\<close>)\<close>

datatype py_error = ZeroDivisionError | UnboundLocalError | SystemExit

text \<open>
  The fields of \<open>Graticule\<close> that \<open>make\<close> and \<open>set_range\<close> read or write;
  \<open>sample_rate\<close> is \<open>self.opt.sample_rate\<close>. The dB limits are integers (they are the
  arguments of \<open>range\<close>).
\<close>

record graticule =
  sp_min :: int
  sp_max :: int
  h :: int
  w :: int
  sample_rate :: int

text \<open>
  \<open>Graticule.set_range\<close>, lines 1108 to 1118. \<open>quit_all()\<close> (lines 128 to 141) quits
  pygame, closes the standard streams and calls \<open>sys.exit()\<close>: the assignments of lines
  1116 and 1117 are not reached. The result is the exception raised, if any, and the object.
\<close>

definition set_range :: "graticule \<Rightarrow> int \<Rightarrow> int \<Rightarrow> py_error option \<times> graticule" where
  "set_range g new_min new_max =
     (if \<not> new_max > new_min then (Some SystemExit, g)
      else (None, g\<lparr>sp_max := new_max, sp_min := new_min\<rparr>))"

text \<open>
  The graticule of line 1305 (height \<open>h_2d = 266\<close>, width \<open>w_spectra = 1280\<close>) with the
  dB limits named in the comments of lines 1058 and 1059, for a given sample rate.
\<close>

definition mygraticule :: "int \<Rightarrow> graticule" where
  "mygraticule rate = \<lparr> sp_min = - 120, sp_max = - 20, h = 266, w = 1280, sample_rate = rate \<rparr>"

text \<open>Python's \<open>range(lo, hi, 10)\<close>.\<close>

function range10 :: "int \<Rightarrow> int \<Rightarrow> int list" where
  "range10 lo hi = (if lo < hi then lo # range10 (lo + 10) hi else [])"
  by pat_completeness auto
termination
  by (relation "measure (\<lambda>(lo, hi). nat (hi - lo))") auto

declare range10.simps [simp del]

text \<open>
  The loop of lines 1096 to 1098: it leaves at the first candidate below \<open>srate2\<close>; when it
  runs to its end the loop variable holds the last candidate. Over an empty list the
  variable would be unbound.
\<close>

fun xtick_loop :: "real \<Rightarrow> int list \<Rightarrow> int option" where
  "xtick_loop srate2 [] = None"
| "xtick_loop srate2 [x] = Some x"
| "xtick_loop srate2 (x # y # ys) =
     (if real_of_int x < srate2 then Some x else xtick_loop srate2 (y # ys))"

definition xtick_candidates :: "int list" where
  "xtick_candidates = [800, 400, 200, 100, 80, 40, 20, 10]"

text \<open>
  What \<open>make\<close> draws: each horizontal line with its dB value and its screen coordinate,
  the half-span chosen, and each vertical line with its offset in kHz and its screen
  coordinate. Python's floats are taken as reals.
\<close>

record grid =
  db_lines :: "(int \<times> real) list"
  xtick_max :: int
  freq_lines :: "(real \<times> real) list"

text \<open>
  \<open>Graticule.make\<close>, lines 1068 to 1106. Line 1074 divides by \<open>sp_max - sp_min\<close>, line
  1087 reads \<open>attn\<close>, which is unbound when the loop of line 1076 did not run, and line
  1093 divides by \<open>frq_range\<close>.
\<close>

definition make :: "graticule \<Rightarrow> py_error + grid" where
  "make g =
     (if sp_max g - sp_min g = 0 then Inl ZeroDivisionError
      else
        let yscale = real_of_int (h g) / real_of_int (sp_max g - sp_min g);
            attns = range10 (sp_min g) (sp_max g);
            lines = map (\<lambda>attn. (attn,
                      real_of_int (h g) - (real_of_int (attn - sp_min g) * yscale + 3))) attns
        in if attns = [] then Inl UnboundLocalError
           else
             let frq_range = real_of_int (sample_rate g) / 1000
             in if frq_range = 0 then Inl ZeroDivisionError
                else
                  let xscale = real_of_int (w g) / frq_range;
                      srate2 = frq_range / 2
                  in case xtick_loop srate2 xtick_candidates of
                       None \<Rightarrow> Inl UnboundLocalError
                     | Some xt \<Rightarrow>
                         let ticks = [- real_of_int xt, - real_of_int xt / 2, 0,
                                      real_of_int xt / 2, real_of_int xt]
                         in Inr \<lparr> db_lines = lines, xtick_max = xt,
                                  freq_lines = map (\<lambda>offset.
                                    (offset, offset * xscale + real_of_int (w g) / 2)) ticks \<rparr>)"

text \<open>
  The transform size, lines 1209 to 1228. The width of the spectrum is the constant of
  lines 1209 and 1212. The loop of line 1224 takes the first candidate that fits; the
  second component is the message of line 1226, the old and the new size.
\<close>

definition w_main :: int where
  "w_main = 1280"

definition w_spectra :: int where
  "w_spectra = w_main"

definition size_candidates :: "int list" where
  "size_candidates = [1024, 512, 256, 128]"

definition size_clamp :: "int \<Rightarrow> int \<Rightarrow> int \<times> (int \<times> int) option" where
  "size_clamp width opt_size =
     (if opt_size > width then
        (case List.find (\<lambda>n. n \<le> width) size_candidates of
           Some n \<Rightarrow> (n, Some (opt_size, n))
         | None \<Rightarrow> (opt_size, None))
      else (opt_size, None))"

section \<open>The queue\<close>

lemma callback_queue_cases:
  "cbqueue (snd (pa_callback_iqin d st s)) = cbqueue s \<or>
   (length (cbqueue s) < MAXQUEUELEN \<and> cbqueue (snd (pa_callback_iqin d st s)) = cbqueue s @ [d])"
  by (auto simp: pa_callback_iqin_def Let_def split: prod.splits)

lemma callback_queue_bounded:
  "length (cbqueue s) \<le> MAXQUEUELEN \<Longrightarrow>
   length (cbqueue (snd (pa_callback_iqin d st s))) \<le> MAXQUEUELEN"
  using callback_queue_cases [of d st s] by auto

lemma locked_get_queue_bounded:
  "length (cbqueue s) \<le> MAXQUEUELEN \<Longrightarrow> length (cbqueue (snd (locked_get s))) \<le> MAXQUEUELEN"
  by (auto simp: locked_get_def split: list.splits)

lemma step_queue_bounded:
  "length (cbqueue s) \<le> MAXQUEUELEN \<Longrightarrow> length (cbqueue (step s e)) \<le> MAXQUEUELEN"
  by (cases e) (simp_all add: callback_queue_bounded locked_get_queue_bounded)

lemma run_queue_bounded:
  "length (cbqueue s) \<le> MAXQUEUELEN \<Longrightarrow> length (cbqueue (run s es)) \<le> MAXQUEUELEN"
  by (induction es arbitrary: s) (simp_all add: step_queue_bounded)

lemma callback_full_queue_unchanged:
  "length (cbqueue s) \<ge> MAXQUEUELEN \<Longrightarrow> cbqueue (snd (pa_callback_iqin d st s)) = cbqueue s"
  using callback_queue_cases [of d st s] by auto

text \<open>
  C9. In every interleaving of callbacks and consumer reads that starts with at most
  \<open>MAXQUEUELEN\<close> = 32 blocks queued, the queue holds at most 32 blocks after each event,
  and a callback that finds the queue full leaves its contents as they were.
\<close>

theorem queue_never_exceeds_capacity:
  assumes "length (cbqueue s) \<le> MAXQUEUELEN"
  shows "(\<forall>n. length (cbqueue (run s (take n es))) \<le> MAXQUEUELEN) \<and> MAXQUEUELEN = 32 \<and>
    (length (cbqueue (run s es)) = MAXQUEUELEN \<longrightarrow>
       cbqueue (snd (pa_callback_iqin d st (run s es))) = cbqueue (run s es))"
proof (intro conjI allI impI)
  fix n show "length (cbqueue (run s (take n es))) \<le> MAXQUEUELEN"
    using assms by (rule run_queue_bounded)
next
  show "MAXQUEUELEN = 32" by (simp add: MAXQUEUELEN_def)
next
  assume "length (cbqueue (run s es)) = MAXQUEUELEN"
  then show "cbqueue (snd (pa_callback_iqin d st (run s es))) = cbqueue (run s es)"
    by (simp add: callback_full_queue_unchanged)
qed

theorem queue_never_exceeds_capacity_witness:
  "length (cbqueue (cb_init 0 :: nat cb_state)) \<le> MAXQUEUELEN \<and>
   length (cbqueue (run (cb_init 0) (replicate 33 (Push (5::nat) 0)))) = MAXQUEUELEN \<and>
   length (cbqueue (run (cb_init 0) (take 20 (replicate 33 (Push (5::nat) 0))))) \<le> MAXQUEUELEN \<and>
   cbqueue (snd (pa_callback_iqin 9 0 (run (cb_init 0) (replicate 33 (Push (5::nat) 0))))) =
     cbqueue (run (cb_init 0) (replicate 33 (Push (5::nat) 0)))"
proof -
  have h: "length (cbqueue (cb_init 0 :: nat cb_state)) \<le> MAXQUEUELEN"
    by (simp add: cb_init_def)
  have full: "length (cbqueue (run (cb_init 0) (replicate 33 (Push (5::nat) 0)))) = MAXQUEUELEN"
    by code_simp
  show ?thesis
    using h full queue_never_exceeds_capacity [OF h, of "replicate 33 (Push 5 0)" 9 0]
    by blast
qed

section \<open>The skip counter\<close>

lemma callback_cbskip_ct:
  "cbskip_ct (snd (pa_callback_iqin d st s)) = snd (skip_decide (cbskip s) (cbskip_ct s))"
  by (simp add: pa_callback_iqin_def Let_def split: prod.splits)

lemma callback_cbskip: "cbskip (snd (pa_callback_iqin d st s)) = cbskip s"
  by (simp add: pa_callback_iqin_def Let_def split: prod.splits)

lemma callback_skipped_iff:
  "fst (pa_callback_iqin d st s) = Skipped \<longleftrightarrow> \<not> fst (skip_decide (cbskip s) (cbskip_ct s))"
  by (simp add: pa_callback_iqin_def Let_def split: prod.splits)

text \<open>The skip counter starts at 0 and never becomes negative.\<close>

lemma callback_ct_nonneg:
  "0 \<le> cbskip_ct s \<Longrightarrow> 0 \<le> cbskip_ct (snd (pa_callback_iqin d st s))"
  by (simp add: callback_cbskip_ct skip_decide_def)

lemma producer_ct_nonneg: "0 \<le> cbskip_ct s \<Longrightarrow> 0 \<le> cbskip_ct (producer s bs)"
proof (induction bs arbitrary: s)
  case Nil
  then show ?case by simp
next
  case (Cons b bs)
  obtain d st where "b = (d, st)" by (cases b)
  with Cons show ?case by (simp add: callback_ct_nonneg)
qed

lemma kept_cb_results:
  "kept (cb_results s bs) = kept_from (cbskip s) (cbskip_ct s) (length bs)"
proof (induction bs arbitrary: s)
  case Nil
  show ?case by (simp add: kept_def)
next
  case (Cons b bs)
  obtain d st where b: "b = (d, st)" by (cases b)
  have "kept (cb_results s (b # bs)) =
        (if fst (pa_callback_iqin d st s) = Skipped then 0 else 1) +
        kept (cb_results (snd (pa_callback_iqin d st s)) bs)"
    by (simp add: b kept_def)
  then show ?case
    by (simp add: Cons.IH callback_cbskip callback_cbskip_ct callback_skipped_iff)
qed

lemma div_bound: "c \<le> n \<Longrightarrow> (m + c) div Suc n \<le> (m::nat)"
proof -
  assume "c \<le> n"
  then have "m + c < Suc m * Suc n" by simp
  then have "(m + c) div Suc n < Suc m"
    by (simp add: div_less_iff_less_mult)
  then show ?thesis by simp
qed

lemma div_wrap: "Suc (m + n) div Suc n = Suc (m div Suc n)"
proof -
  have "(m + Suc n) div Suc n = m div Suc n + 1"
    by (rule div_add_self2) simp
  then show ?thesis by simp
qed

lemma kept_from_pos:
  "0 < skip \<Longrightarrow> 0 \<le> ct \<Longrightarrow> ct \<le> skip \<Longrightarrow>
   kept_from skip ct m = m - (m + nat ct) div (nat skip + 1)"
proof (induction m arbitrary: ct)
  case 0
  then show ?case by simp
next
  case (Suc m)
  show ?case
  proof (cases "ct \<ge> skip")
    case True
    with Suc.prems have ct: "ct = skip" by simp
    have "kept_from skip ct (Suc m) = kept_from skip 0 m"
      using Suc.prems True by (simp add: skip_decide_def)
    also have "\<dots> = m - m div (nat skip + 1)"
      using Suc.IH [of 0] Suc.prems by simp
    also have "\<dots> = Suc m - (Suc m + nat ct) div (nat skip + 1)"
      by (simp add: ct div_wrap)
    finally show ?thesis .
  next
    case False
    then have lt: "nat ct + 1 \<le> nat skip" using Suc.prems by simp
    have "kept_from skip ct (Suc m) = Suc (kept_from skip (ct + 1) m)"
      using Suc.prems False by (simp add: skip_decide_def)
    also have "\<dots> = Suc (m - (m + nat (ct + 1)) div (nat skip + 1))"
      using Suc.IH [of "ct + 1"] Suc.prems False by simp
    also have "\<dots> = Suc (m - (Suc m + nat ct) div (nat skip + 1))"
      using Suc.prems by (simp add: nat_add_distrib)
    also have "\<dots> = Suc m - (Suc m + nat ct) div (nat skip + 1)"
      using div_bound [OF lt, of m] by (simp add: Suc_diff_le)
    finally show ?thesis .
  qed
qed

lemma kept_from_neg:
  "skip < 0 \<Longrightarrow> 0 \<le> ct \<Longrightarrow> ct \<le> - skip \<Longrightarrow>
   kept_from skip ct m = (m + nat ct) div (nat (- skip) + 1)"
proof (induction m arbitrary: ct)
  case 0
  then show ?case by simp
next
  case (Suc m)
  show ?case
  proof (cases "ct \<ge> - skip")
    case True
    with Suc.prems have ct: "ct = - skip" by simp
    have "kept_from skip ct (Suc m) = Suc (kept_from skip 0 m)"
      using Suc.prems True by (simp add: skip_decide_def)
    also have "\<dots> = Suc (m div (nat (- skip) + 1))"
      using Suc.IH [of 0] Suc.prems by simp
    also have "\<dots> = (Suc m + nat ct) div (nat (- skip) + 1)"
      by (simp add: ct div_wrap)
    finally show ?thesis .
  next
    case False
    have "kept_from skip ct (Suc m) = kept_from skip (ct + 1) m"
      using Suc.prems False by (simp add: skip_decide_def)
    also have "\<dots> = (m + nat (ct + 1)) div (nat (- skip) + 1)"
      using Suc.IH [of "ct + 1"] Suc.prems False by simp
    also have "\<dots> = (Suc m + nat ct) div (nat (- skip) + 1)"
      using Suc.prems by (simp add: nat_add_distrib)
    finally show ?thesis .
  qed
qed

lemma kept_from_zero: "kept_from 0 ct m = m"
  by (induction m arbitrary: ct) (simp_all add: skip_decide_def)


lemma kept_from_window_pos:
  assumes "0 < skip" "0 \<le> ct"
  shows "kept_from skip ct (nat skip + 1) = nat skip"
proof (cases "ct \<le> skip")
  case True
  have "(nat skip + 1 + nat ct) div (nat skip + 1) = 1"
    using assms True by (simp add: div_nat_eqI)
  then show ?thesis
    using kept_from_pos [OF assms True, of "nat skip + 1"] by simp
next
  case False
  have "kept_from skip ct (Suc (nat skip)) = kept_from skip 0 (nat skip)"
    using assms False by (simp add: skip_decide_def)
  also have "\<dots> = nat skip"
    using kept_from_pos [of skip 0 "nat skip"] assms by simp
  finally show ?thesis by simp
qed

lemma kept_from_window_neg:
  assumes "skip < 0" "0 \<le> ct"
  shows "kept_from skip ct (nat (- skip) + 1) = 1"
proof (cases "ct \<le> - skip")
  case True
  have "(nat (- skip) + 1 + nat ct) div (nat (- skip) + 1) = 1"
    using assms True by (simp add: div_nat_eqI)
  then show ?thesis
    using kept_from_neg [OF assms True, of "nat (- skip) + 1"] by simp
next
  case False
  have "kept_from skip ct (Suc (nat (- skip))) = Suc (kept_from skip 0 (nat (- skip)))"
    using assms False by (simp add: skip_decide_def)
  also have "\<dots> = 1"
    using kept_from_neg [of skip 0 "nat (- skip)"] assms by simp
  finally show ?thesis by simp
qed

text \<open>
  What \<open>kept\<close> counts: once the start-up discard is over, with the lock free and room in
  the queue, the buffers that pass the skip counter are the ones appended to the queue,
  in the order of their arrival.
\<close>

lemma callback_enqueues:
  assumes "fst (skip_decide (cbskip s) (cbskip_ct s))" and "cbfirst s \<le> 0"
    and "\<not> queueLock s" and "length (cbqueue s) < MAXQUEUELEN"
  shows "pa_callback_iqin d st s =
     (Enqueued, snd (pa_callback_iqin d st s))"
    and "cbqueue (snd (pa_callback_iqin d st s)) = cbqueue s @ [d]"
    and "cbfirst (snd (pa_callback_iqin d st s)) = cbfirst s"
    and "\<not> queueLock (snd (pa_callback_iqin d st s))"
  using assms by (auto simp: pa_callback_iqin_def Let_def split: prod.splits)

lemma callback_skips:
  assumes "\<not> fst (skip_decide (cbskip s) (cbskip_ct s))"
  shows "cbqueue (snd (pa_callback_iqin d st s)) = cbqueue s"
    and "cbfirst (snd (pa_callback_iqin d st s)) = cbfirst s"
    and "queueLock (snd (pa_callback_iqin d st s)) = queueLock s"
  using assms by (auto simp: pa_callback_iqin_def Let_def split: prod.splits)

lemma kept_are_enqueued:
  assumes "cbfirst s \<le> 0" and "\<not> queueLock s"
    and "length (cbqueue s) + kept (cb_results s bs) \<le> MAXQUEUELEN"
  shows "cbqueue (producer s bs) =
     cbqueue s @ map (fst \<circ> snd) (filter (\<lambda>(r, b). r \<noteq> Skipped) (zip (cb_results s bs) bs))"
  using assms
proof (induction bs arbitrary: s)
  case Nil
  then show ?case by simp
next
  case (Cons b bs)
  obtain d st where b: "b = (d, st)" by (cases b)
  let ?r = "fst (pa_callback_iqin d st s)" and ?s = "snd (pa_callback_iqin d st s)"
  show ?case
  proof (cases "fst (skip_decide (cbskip s) (cbskip_ct s))")
    case False
    then have r: "?r = Skipped" by (simp add: callback_skipped_iff)
    have "cbqueue (producer ?s bs) = cbqueue ?s @
        map (fst \<circ> snd) (filter (\<lambda>(r, b). r \<noteq> Skipped) (zip (cb_results ?s bs) bs))"
      using Cons.prems r callback_skips [OF False, of d st]
      by (intro Cons.IH) (simp_all add: b kept_def)
    then show ?thesis using r callback_skips(1) [OF False, of d st] by (simp add: b)
  next
    case True
    then have r: "?r \<noteq> Skipped" by (simp add: callback_skipped_iff)
    then have room: "length (cbqueue s) < MAXQUEUELEN"
      using Cons.prems(3) by (simp add: b kept_def)
    note enq = callback_enqueues [OF True Cons.prems(1,2) room, of d st]
    have "cbqueue (producer ?s bs) = cbqueue ?s @
        map (fst \<circ> snd) (filter (\<lambda>(r, b). r \<noteq> Skipped) (zip (cb_results ?s bs) bs))"
      using Cons.prems r enq by (intro Cons.IH) (simp_all add: b kept_def)
    then show ?thesis using r enq(2) by (simp add: b)
  qed
qed

text \<open>
  C1, as amended. From any point of the stream (the counter is never negative), of every
  \<open>\<bar>N\<bar> + 1\<close> consecutive buffers the skip counter lets through exactly \<open>N\<close> when
  \<open>N > 0\<close> (it discards one), exactly one when \<open>N < 0\<close>, and the single buffer when
  \<open>N = 0\<close>.
\<close>

theorem skip_window:
  assumes "0 \<le> cbskip_ct s" and "length bs = nat \<bar>cbskip s\<bar> + 1"
  shows "kept (cb_results s bs) = (if cbskip s > 0 then nat (cbskip s) else 1)"
proof -
  consider "cbskip s > 0" | "cbskip s < 0" | "cbskip s = 0" by linarith
  then show ?thesis
  proof cases
    case 1
    then show ?thesis
      using assms kept_from_window_pos [of "cbskip s" "cbskip_ct s"]
      by (simp add: kept_cb_results)
  next
    case 2
    then show ?thesis
      using assms kept_from_window_neg [of "cbskip s" "cbskip_ct s"]
      by (simp add: kept_cb_results)
  next
    case 3
    have "kept (cb_results s bs) = length bs"
      by (simp only: kept_cb_results 3 kept_from_zero)
    then show ?thesis
      using assms 3 by simp
  qed
qed

theorem skip_window_witness:
  "0 \<le> cbskip_ct (cb_init (- 2) :: nat cb_state) \<and>
   length [(1::nat, 0::int), (2, 0), (3, 0)] = nat \<bar>cbskip (cb_init (- 2) :: nat cb_state)\<bar> + 1 \<and>
   kept (cb_results (cb_init (- 2)) [(1::nat, 0), (2, 0), (3, 0)]) = 1"
proof -
  have a: "0 \<le> cbskip_ct (cb_init (- 2) :: nat cb_state)" by (simp add: cb_init_def)
  have b: "length [(1::nat, 0::int), (2, 0), (3, 0)] = nat \<bar>cbskip (cb_init (- 2) :: nat cb_state)\<bar> + 1"
    by (simp add: cb_init_def)
  show ?thesis using a b skip_window [OF a b] by (simp add: cb_init_def)
qed

text \<open>
  C1 as stated fails for \<open>N = 2\<close>: of three consecutive buffers two are kept, not one.
\<close>

theorem skip_keeps_one_counterexample:
  "kept (cb_results ((cb_init 2)\<lparr>cbfirst := 0\<rparr>) [(1::nat, 0), (2, 0), (3, 0)]) = 2"
  by code_simp

text \<open>
  C5, as amended. With the counter at 0, of \<open>M\<close> buffers the skip counter lets through
  \<open>M - M div (N + 1)\<close> when \<open>N > 0\<close>, \<open>M div (\<bar>N\<bar> + 1)\<close> when \<open>N < 0\<close>, and all
  \<open>M\<close> when \<open>N = 0\<close>.
\<close>

theorem skip_kept_count:
  assumes "cbskip_ct s = 0"
  shows "kept (cb_results s bs) =
    (if cbskip s > 0 then length bs - length bs div (nat (cbskip s) + 1)
     else if cbskip s < 0 then length bs div (nat (- cbskip s) + 1)
     else length bs)"
proof -
  consider "cbskip s > 0" | "cbskip s < 0" | "cbskip s = 0" by linarith
  then show ?thesis
  proof cases
    case 1
    then show ?thesis
      using assms kept_from_pos [of "cbskip s" 0 "length bs"]
      by (simp add: kept_cb_results)
  next
    case 2
    then show ?thesis
      using assms kept_from_neg [of "cbskip s" 0 "length bs"]
      by (simp add: kept_cb_results)
  next
    case 3
    then show ?thesis
      by (simp add: kept_cb_results kept_from_zero)
  qed
qed

theorem skip_kept_count_witness:
  "cbskip_ct (cb_init 2 :: nat cb_state) = 0 \<and>
   kept (cb_results (cb_init 2) (replicate 7 (5::nat, 0))) = 5"
proof -
  have a: "cbskip_ct (cb_init 2 :: nat cb_state) = 0" by (simp add: cb_init_def)
  show ?thesis using a skip_kept_count [OF a, of "replicate 7 (5, 0)"] by (simp add: cb_init_def)
qed

text \<open>
  C5 as stated fails: with \<open>N = -1\<close> the one buffer delivered is discarded, where the
  formula of the claim gives 1; with \<open>N = 1\<close> only one of two buffers is kept, so
  \<open>N = 1\<close> is not "keep all".
\<close>

theorem skip_kept_count_counterexample:
  "kept (cb_results ((cb_init (- 1))\<lparr>cbfirst := 0\<rparr>) [(5::nat, 0)]) = 0 \<and>
   (1::nat) - 1 div (nat \<bar>- 1\<bar> + 1) = 1 \<and>
   kept (cb_results ((cb_init 1)\<lparr>cbfirst := 0\<rparr>) [(5::nat, 0), (6, 0)]) = 1"
  by code_simp

section \<open>A push on a full queue\<close>

text \<open>
  C2, as amended. When the callback has decided to enqueue (the skip counter lets the
  buffer through, no start-up discard is pending, the lock is free) and the queue holds
  \<open>MAXQUEUELEN\<close> blocks, the call does not wait: it leaves through \<open>sys.exit()\<close>, the
  queue is as it was, and \<open>led_underrun_ct\<close> is set only by PortAudio's overflow status,
  not by the full queue.
\<close>

theorem push_full_exits:
  assumes "fst (skip_decide (cbskip s) (cbskip_ct s))" and "cbfirst s \<le> 0"
    and "\<not> queueLock s" and "length (cbqueue s) \<ge> MAXQUEUELEN"
  shows "fst (pa_callback_iqin in_data status s) = ExitFull \<and>
         cbqueue (snd (pa_callback_iqin in_data status s)) = cbqueue s \<and>
         led_underrun_ct (snd (pa_callback_iqin in_data status s)) =
           (if status = paInputOverflow then 1 else led_underrun_ct s)"
  using assms by (auto simp: pa_callback_iqin_def Let_def split: prod.splits)

theorem push_full_exits_witness:
  "fst (skip_decide (cbskip (run (cb_init 0) (replicate 33 (Push (5::nat) 0))))
         (cbskip_ct (run (cb_init 0) (replicate 33 (Push (5::nat) 0))))) \<and>
   cbfirst (run (cb_init 0) (replicate 33 (Push (5::nat) 0))) \<le> 0 \<and>
   \<not> queueLock (run (cb_init 0) (replicate 33 (Push (5::nat) 0))) \<and>
   length (cbqueue (run (cb_init 0) (replicate 33 (Push (5::nat) 0)))) \<ge> MAXQUEUELEN \<and>
   fst (pa_callback_iqin 9 0 (run (cb_init 0) (replicate 33 (Push (5::nat) 0)))) = ExitFull \<and>
   cbqueue (snd (pa_callback_iqin 9 0 (run (cb_init 0) (replicate 33 (Push (5::nat) 0))))) = replicate 32 5"
proof -
  let ?s = "run (cb_init 0) (replicate 33 (Push (5::nat) 0))"
  have a: "fst (skip_decide (cbskip ?s) (cbskip_ct ?s))" by code_simp
  have b: "cbfirst ?s \<le> 0" by code_simp
  have c: "\<not> queueLock ?s" by code_simp
  have d: "length (cbqueue ?s) \<ge> MAXQUEUELEN" by code_simp
  have e: "cbqueue ?s = replicate 32 5" by code_simp
  show ?thesis using a b c d e push_full_exits [OF a b c d, of 9 0] by simp
qed

text \<open>
  C2 as stated fails: on the full queue reached by 33 callbacks, the next callback ends
  in \<open>sys.exit()\<close> instead of returning, and the flag stays 0.
\<close>

theorem push_full_counterexample:
  "length (cbqueue (run (cb_init 0) (replicate 33 (Push (5::nat) 0)))) = MAXQUEUELEN \<and>
   fst (pa_callback_iqin 9 0 (run (cb_init 0) (replicate 33 (Push (5::nat) 0)))) = ExitFull \<and>
   led_underrun_ct (snd (pa_callback_iqin 9 0 (run (cb_init 0) (replicate 33 (Push (5::nat) 0))))) = 0"
  by code_simp

section \<open>The start-up discard\<close>

lemma callback_tossed_iff:
  "fst (pa_callback_iqin d st s) = Tossed \<longleftrightarrow>
   fst (skip_decide (cbskip s) (cbskip_ct s)) \<and> cbfirst s > 0"
  by (auto simp: pa_callback_iqin_def Let_def split: prod.splits)

lemma callback_cbfirst:
  "cbfirst (snd (pa_callback_iqin d st s)) =
   (if fst (pa_callback_iqin d st s) = Tossed then cbfirst s - 1 else cbfirst s)"
  by (auto simp: pa_callback_iqin_def Let_def split: prod.splits)

lemma skip_independent:
  "cbskip s = cbskip t \<Longrightarrow> cbskip_ct s = cbskip_ct t \<Longrightarrow>
   map (\<lambda>r. r = Skipped) (cb_results s bs) = map (\<lambda>r. r = Skipped) (cb_results t bs) \<and>
   cbskip_ct (producer s bs) = cbskip_ct (producer t bs)"
proof (induction bs arbitrary: s t)
  case Nil
  then show ?case by simp
next
  case (Cons b bs)
  obtain d st where b: "b = (d, st)" by (cases b)
  let ?s = "snd (pa_callback_iqin d st s)" and ?t = "snd (pa_callback_iqin d st t)"
  have "cbskip ?s = cbskip ?t" "cbskip_ct ?s = cbskip_ct ?t"
    using Cons.prems by (simp_all add: callback_cbskip callback_cbskip_ct)
  then have "map (\<lambda>r. r = Skipped) (cb_results ?s bs) = map (\<lambda>r. r = Skipped) (cb_results ?t bs) \<and>
    cbskip_ct (producer ?s bs) = cbskip_ct (producer ?t bs)"
    by (rule Cons.IH)
  moreover have "(fst (pa_callback_iqin d st s) = Skipped) = (fst (pa_callback_iqin d st t) = Skipped)"
    using Cons.prems by (simp add: callback_skipped_iff)
  ultimately show ?case by (simp add: b)
qed

lemma tossed_prefix:
  "take (nat (cbfirst s)) (filter (\<lambda>r. r \<noteq> Skipped) (cb_results s bs)) =
     replicate (min (nat (cbfirst s)) (kept (cb_results s bs))) Tossed \<and>
   Tossed \<notin> set (drop (nat (cbfirst s)) (filter (\<lambda>r. r \<noteq> Skipped) (cb_results s bs)))"
proof (induction bs arbitrary: s)
  case Nil
  then show ?case by (simp add: kept_def)
next
  case (Cons b bs)
  obtain d st where b: "b = (d, st)" by (cases b)
  let ?r = "fst (pa_callback_iqin d st s)" and ?s = "snd (pa_callback_iqin d st s)"
  note IH = Cons.IH [of ?s]
  consider "?r = Skipped" | "?r = Tossed" | "?r \<noteq> Skipped" "?r \<noteq> Tossed" by blast
  then show ?case
  proof cases
    case 1
    then have "cbfirst ?s = cbfirst s" by (simp add: callback_cbfirst)
    with IH 1 show ?thesis by (simp add: b kept_def)
  next
    case 2
    then have pos: "cbfirst s > 0" by (simp add: callback_tossed_iff)
    have f: "cbfirst ?s = cbfirst s - 1" using 2 by (simp add: callback_cbfirst)
    define k where "k = nat (cbfirst s - 1)"
    have k: "nat (cbfirst s) = Suc k" "nat (cbfirst s - 1) = k"
      using pos by (simp_all add: k_def nat_diff_distrib)
    with IH 2 f k show ?thesis by (simp add: b kept_def)
  next
    case 3
    then have np: "\<not> cbfirst s > 0" by (auto simp: callback_tossed_iff callback_skipped_iff)
    have f: "cbfirst ?s = cbfirst s" using 3 by (simp add: callback_cbfirst)
    from np have z: "nat (cbfirst s) = 0" by simp
    with IH 3 f show ?thesis by (simp add: b kept_def)
  qed
qed

text \<open>
  C6, as amended. The skip counter runs first on every buffer, whatever \<open>cbfirst\<close> is:
  which buffers it discards, and the counter at the end, are the same as with
  \<open>cbfirst = 0\<close>. Of the buffers it lets through, the first \<open>cbfirst\<close> are tossed and no
  later one is; a tossed buffer leaves the queue as it was.
\<close>

theorem startup_discard_follows_skip:
  "map (\<lambda>r. r = Skipped) (cb_results s bs) =
     map (\<lambda>r. r = Skipped) (cb_results (s\<lparr>cbfirst := 0\<rparr>) bs) \<and>
   cbskip_ct (producer s bs) = cbskip_ct (producer (s\<lparr>cbfirst := 0\<rparr>) bs) \<and>
   take (nat (cbfirst s)) (filter (\<lambda>r. r \<noteq> Skipped) (cb_results s bs)) =
     replicate (min (nat (cbfirst s)) (kept (cb_results s bs))) Tossed \<and>
   Tossed \<notin> set (drop (nat (cbfirst s)) (filter (\<lambda>r. r \<noteq> Skipped) (cb_results s bs))) \<and>
   (fst (pa_callback_iqin d st s) = Tossed \<longrightarrow>
      cbqueue (snd (pa_callback_iqin d st s)) = cbqueue s \<and>
      cbfirst (snd (pa_callback_iqin d st s)) = cbfirst s - 1 \<and>
      cbskip_ct (snd (pa_callback_iqin d st s)) = snd (skip_decide (cbskip s) (cbskip_ct s)))"
proof -
  have "cbskip s = cbskip (s\<lparr>cbfirst := 0\<rparr>)" "cbskip_ct s = cbskip_ct (s\<lparr>cbfirst := 0\<rparr>)"
    by simp_all
  then have a: "map (\<lambda>r. r = Skipped) (cb_results s bs) =
     map (\<lambda>r. r = Skipped) (cb_results (s\<lparr>cbfirst := 0\<rparr>) bs) \<and>
     cbskip_ct (producer s bs) = cbskip_ct (producer (s\<lparr>cbfirst := 0\<rparr>) bs)"
    by (rule skip_independent)
  have c: "fst (pa_callback_iqin d st s) = Tossed \<longrightarrow>
      cbqueue (snd (pa_callback_iqin d st s)) = cbqueue s \<and>
      cbfirst (snd (pa_callback_iqin d st s)) = cbfirst s - 1 \<and>
      cbskip_ct (snd (pa_callback_iqin d st s)) = snd (skip_decide (cbskip s) (cbskip_ct s))"
    using callback_queue_cases [of d st s]
    by (auto simp: callback_cbfirst callback_cbskip_ct pa_callback_iqin_def Let_def
             split: prod.splits)
  from a tossed_prefix [of s bs] c show ?thesis by blast
qed

theorem startup_discard_follows_skip_witness:
  "fst (pa_callback_iqin 5 0 (cb_init 2 :: nat cb_state)) = Tossed \<and>
   cbqueue (snd (pa_callback_iqin 5 0 (cb_init 2 :: nat cb_state))) = [] \<and>
   cbfirst (snd (pa_callback_iqin 5 0 (cb_init 2 :: nat cb_state))) = 0 \<and>
   cbskip_ct (snd (pa_callback_iqin 5 0 (cb_init 2 :: nat cb_state))) = 1 \<and>
   cb_results (cb_init 2) [(5::nat, 0), (6, 0), (7, 0), (8, 0)] =
     [Tossed, Enqueued, Skipped, Enqueued]"
proof -
  have t: "fst (pa_callback_iqin 5 0 (cb_init 2 :: nat cb_state)) = Tossed" by code_simp
  have q: "cbqueue (cb_init 2 :: nat cb_state) = []" "cbfirst (cb_init 2 :: nat cb_state) = 1"
    "snd (skip_decide (cbskip (cb_init 2 :: nat cb_state)) (cbskip_ct (cb_init 2 :: nat cb_state))) = 1"
    by (simp_all add: cb_init_def skip_decide_def)
  have r: "cb_results (cb_init 2) [(5::nat, 0), (6, 0), (7, 0), (8, 0)] =
     [Tossed, Enqueued, Skipped, Enqueued]"
    by code_simp
  from startup_discard_follows_skip [of "cb_init 2 :: nat cb_state" "[(5, 0), (6, 0), (7, 0), (8, 0)]" 5 0] t
  have "cbqueue (snd (pa_callback_iqin 5 0 (cb_init 2 :: nat cb_state))) = cbqueue (cb_init 2 :: nat cb_state)"
    and "cbfirst (snd (pa_callback_iqin 5 0 (cb_init 2 :: nat cb_state))) = cbfirst (cb_init 2 :: nat cb_state) - 1"
    and "cbskip_ct (snd (pa_callback_iqin 5 0 (cb_init 2 :: nat cb_state))) =
      snd (skip_decide (cbskip (cb_init 2 :: nat cb_state)) (cbskip_ct (cb_init 2 :: nat cb_state)))"
    by blast+
  with t q r show ?thesis by simp
qed

text \<open>
  C6 as stated fails. With skip 2 the first buffer is tossed and the skip counter has
  moved from 0 to 1; with skip \<open>-1\<close> the first buffer is discarded by the skip counter
  and the start-up discard takes the second one.
\<close>

theorem startup_discard_counterexample:
  "fst (pa_callback_iqin 5 0 (cb_init 2 :: nat cb_state)) = Tossed \<and>
   cbskip_ct (cb_init 2 :: nat cb_state) = 0 \<and>
   cbskip_ct (snd (pa_callback_iqin 5 0 (cb_init 2 :: nat cb_state))) = 1 \<and>
   cb_results (cb_init (- 1)) [(5::nat, 0), (6, 0)] = [Skipped, Tossed]"
  by code_simp

section \<open>Waiting for the queue to fill\<close>

lemma wait_for_fill_spec:
  assumes "s = poll_state sched s0 k" and "1 \<le> t"
  shows "(case wait_for_fill sched t k s of (b, k', s') \<Rightarrow>
           k \<le> k' \<and> k' < k + nat t \<and> s' = poll_state sched s0 k' \<and>
           (\<forall>j. k \<le> j \<and> j < k' \<longrightarrow> length (cbqueue (poll_state sched s0 j)) < 4) \<and>
           (b \<longrightarrow> 4 \<le> length (cbqueue s')) \<and>
           (\<not> b \<longrightarrow> k' + 1 = k + nat t \<and> length (cbqueue s') < 4))"
  using assms
proof (induction sched t k s rule: wait_for_fill.induct)
  case (1 sched timeout k s)
  show ?case
  proof (cases "length (cbqueue s) < 4")
    case False
    then show ?thesis using "1.prems" by simp
  next
    case short: True
    show ?thesis
    proof (cases "timeout - 1 \<le> 0")
      case True
      then have "timeout = 1" using "1.prems" by simp
      then show ?thesis using short "1.prems" by simp
    next
      case False
      let ?s = "producer s (sched k)"
      have s: "?s = poll_state sched s0 (Suc k)" using "1.prems" by simp
      have t: "1 \<le> timeout - 1" using False by simp
      note IH = "1.IH" [OF short False s t]
      have eq: "wait_for_fill sched timeout k s = wait_for_fill sched (timeout - 1) (Suc k) ?s"
        using short False by simp
      obtain b k' s' where r: "wait_for_fill sched (timeout - 1) (Suc k) ?s = (b, k', s')"
        by (cases "wait_for_fill sched (timeout - 1) (Suc k) ?s") auto
      have n: "Suc k + nat (timeout - 1) = k + nat timeout" using False by simp
      have "\<And>j. k \<le> j \<Longrightarrow> j < k' \<Longrightarrow> length (cbqueue (poll_state sched s0 j)) < 4"
      proof -
        fix j assume j: "k \<le> j" "j < k'"
        show "length (cbqueue (poll_state sched s0 j)) < 4"
        proof (cases "j = k")
          case True
          then show ?thesis using short "1.prems" by simp
        next
          case False
          then have "Suc k \<le> j" using j by simp
          then show ?thesis using IH r j by simp
        qed
      qed
      then show ?thesis
        using IH r n by (simp only: eq r) auto
    qed
  qed
qed


lemma poll_state_idle: "poll_state (\<lambda>k. []) s k = s"
  by (induction k) simp_all

text \<open>
  C3. For every schedule of the callback thread, \<open>get_queued_data\<close> ends its wait after
  at most 39 sleeps of a tenth of a second (40 polls), each taken because fewer than four
  blocks were queued. It ends in \<open>sys.exit()\<close> exactly when all 40 polls found fewer
  than four blocks; otherwise the poll that ended the wait found at least four, and the
  result is that of the read under the lock.
\<close>

theorem get_queued_data_stall:
  "(case get_queued_data sched s of (r, k, s') \<Rightarrow>
      k < 40 \<and>
      (\<forall>j<k. length (cbqueue (poll_state sched s j)) < 4) \<and>
      (r = Stalled \<longleftrightarrow> (\<forall>j<40. length (cbqueue (poll_state sched s j)) < 4)) \<and>
      (r = Stalled \<longrightarrow> k = 39 \<and> s' = poll_state sched s 39) \<and>
      (r \<noteq> Stalled \<longrightarrow> 4 \<le> length (cbqueue (poll_state sched s k)) \<and>
         (r, s') = locked_get (producer (poll_state sched s k) (sched k))))"
proof -
  obtain b k s1 where w: "wait_for_fill sched 40 0 s = (b, k, s1)"
    by (cases "wait_for_fill sched 40 0 s") auto
  have "s = poll_state sched s 0" "(1::int) \<le> 40" by simp_all
  from wait_for_fill_spec [OF this] w
  have k: "k < 40" and s1: "s1 = poll_state sched s k"
    and before: "\<forall>j<k. length (cbqueue (poll_state sched s j)) < 4"
    and filled: "b \<Longrightarrow> 4 \<le> length (cbqueue s1)"
    and timed: "\<not> b \<Longrightarrow> k = 39 \<and> length (cbqueue s1) < 4"
    by auto
  have not_stalled: "fst (locked_get t) \<noteq> Stalled" for t :: "'a cb_state"
    by (simp add: locked_get_def split: list.splits)
  show ?thesis
  proof (cases b)
    case True
    obtain r s2 where g: "locked_get (producer s1 (sched k)) = (r, s2)"
      by (cases "locked_get (producer s1 (sched k))") auto
    have r: "r \<noteq> Stalled" using not_stalled [of "producer s1 (sched k)"] g by simp
    have res: "get_queued_data sched s = (r, k, s2)"
      using w True g by (simp add: get_queued_data_def)
    have "\<not> (\<forall>j<40. length (cbqueue (poll_state sched s j)) < 4)"
      using filled [OF True] k s1 by (auto simp: not_less)
    then show ?thesis
      using res r k before filled [OF True] s1 g by simp
  next
    case False
    have res: "get_queued_data sched s = (Stalled, k, s1)"
      using w False by (simp add: get_queued_data_def)
    have "\<forall>j<40. length (cbqueue (poll_state sched s j)) < 4"
    proof (intro allI impI)
      fix j :: nat assume "j < 40"
      then have "j < k \<or> j = k" using timed [OF False] by auto
      then show "length (cbqueue (poll_state sched s j)) < 4"
        using before timed [OF False] s1 by auto
    qed
    then show ?thesis
      using res k before timed [OF False] s1 by simp
  qed
qed

theorem get_queued_data_stall_witness:
  "length (cbqueue (poll_state (\<lambda>k. []) (cb_init 0 :: nat cb_state) 39)) < 4 \<and>
   get_queued_data (\<lambda>k. []) (cb_init 0 :: nat cb_state) = (Stalled, 39, cb_init 0)"
proof -
  have idle: "\<forall>j<40. length (cbqueue (poll_state (\<lambda>k. []) (cb_init 0 :: nat cb_state) j)) < 4"
    by (simp add: poll_state_idle cb_init_def)
  obtain r k s' where g: "get_queued_data (\<lambda>k. []) (cb_init 0 :: nat cb_state) = (r, k, s')"
    by (cases "get_queued_data (\<lambda>k. []) (cb_init 0 :: nat cb_state)") auto
  from get_queued_data_stall [of "\<lambda>k. []" "cb_init 0 :: nat cb_state"] g idle
  have "r = Stalled" "k = 39" "s' = poll_state (\<lambda>k. []) (cb_init 0) 39"
    by auto
  with g show ?thesis by (simp add: poll_state_idle cb_init_def)
qed


section \<open>The dB range\<close>

text \<open>
  C4, as amended. A request with \<open>max \<le> min\<close> leaves \<open>sp_min\<close> and \<open>sp_max\<close> as they
  were and ends in \<open>quit_all()\<close>, which raises \<open>SystemExit\<close>: the call does not return.
  A request with \<open>min < max\<close> stores the new limits.
\<close>

theorem set_range_rejects:
  "(new_max \<le> new_min \<longrightarrow>
      set_range g new_min new_max = (Some SystemExit, g) \<and>
      sp_min (snd (set_range g new_min new_max)) = sp_min g \<and>
      sp_max (snd (set_range g new_min new_max)) = sp_max g) \<and>
   (new_min < new_max \<longrightarrow>
      set_range g new_min new_max = (None, g\<lparr>sp_max := new_max, sp_min := new_min\<rparr>))"
  by (simp add: set_range_def)

theorem set_range_rejects_witness:
  "set_range (mygraticule 48000) (- 20) (- 20) = (Some SystemExit, mygraticule 48000) \<and>
   set_range (mygraticule 48000) (- 100) (- 30) =
     (None, (mygraticule 48000)\<lparr>sp_max := - 30, sp_min := - 100\<rparr>)"
  using set_range_rejects [of "- 20" "- 20" "mygraticule 48000"]
    set_range_rejects [of "- 30" "- 100" "mygraticule 48000"]
  by simp

text \<open>
  C4 as stated fails in its last part: the rejected call does not come back to a caller
  who could choose again; it ends in \<open>quit_all()\<close>, that is in \<open>SystemExit\<close>.
\<close>

theorem set_range_counterexample:
  "fst (set_range (mygraticule 48000) (- 20) (- 20)) = Some SystemExit"
  by (simp add: set_range_def)


section \<open>The transform size\<close>

lemma pow2_le_1280:
  assumes "(2::int) ^ k \<le> 1280"
  shows "(2::int) ^ k \<le> 1024"
proof (cases "k \<le> 10")
  case True
  then have "(2::int) ^ k \<le> 2 ^ 10" by (intro power_increasing) simp_all
  also have "(2::int) ^ 10 = 1024" by simp
  finally show ?thesis .
next
  case False
  then have "11 \<le> k" by simp
  then have "(2::int) ^ 11 \<le> 2 ^ k" by (intro power_increasing) simp_all
  moreover have "(2::int) ^ 11 = 2048" by simp
  ultimately have "(2048::int) \<le> 2 ^ k" by simp
  with assms show ?thesis by linarith
qed

lemma size_clamp_w_spectra:
  "size_clamp w_spectra sz = (if sz > 1280 then (1024, Some (sz, 1024)) else (sz, None))"
  by (simp add: size_clamp_def w_spectra_def w_main_def size_candidates_def)

text \<open>
  C7. After the clamp the transform size is at most the display width \<open>w_spectra\<close>. A
  size above the width becomes 1024, a candidate of the loop and the largest power of two
  that fits the width, and the change is reported; a size that fits is left alone.
\<close>

theorem size_clamp_bounded:
  "fst (size_clamp w_spectra sz) \<le> w_spectra \<and>
   (sz > w_spectra \<longrightarrow> size_clamp w_spectra sz = (1024, Some (sz, 1024))) \<and>
   (sz \<le> w_spectra \<longrightarrow> size_clamp w_spectra sz = (sz, None)) \<and>
   (1024::int) = 2 ^ 10 \<and> 1024 \<in> set size_candidates \<and>
   (\<forall>k. (2::int) ^ k \<le> w_spectra \<longrightarrow> (2::int) ^ k \<le> 1024)"
proof -
  have w: "w_spectra = 1280" by (simp add: w_spectra_def w_main_def)
  have a: "fst (size_clamp w_spectra sz) \<le> w_spectra"
    unfolding size_clamp_w_spectra by (simp add: w)
  have b: "sz > w_spectra \<longrightarrow> size_clamp w_spectra sz = (1024, Some (sz, 1024))"
    unfolding size_clamp_w_spectra by (simp add: w)
  have c: "sz \<le> w_spectra \<longrightarrow> size_clamp w_spectra sz = (sz, None)"
    unfolding size_clamp_w_spectra by (simp add: w)
  have d: "(1024::int) = 2 ^ 10" by simp
  have e: "1024 \<in> set size_candidates" by (simp add: size_candidates_def)
  have f: "\<forall>k. (2::int) ^ k \<le> w_spectra \<longrightarrow> (2::int) ^ k \<le> 1024"
    unfolding w using pow2_le_1280 by blast
  from a b c d e f show ?thesis by blast
qed


theorem size_clamp_bounded_witness:
  "(2048::int) > w_spectra \<and> size_clamp w_spectra 2048 = (1024, Some (2048, 1024)) \<and>
   (384::int) \<le> w_spectra \<and> size_clamp w_spectra 384 = (384, None) \<and>
   (2::int) ^ 10 \<le> w_spectra"
proof -
  have a: "(2048::int) > w_spectra" "(384::int) \<le> w_spectra" "(2::int) ^ 10 \<le> w_spectra"
    by (simp_all add: w_spectra_def w_main_def)
  show ?thesis
    using a size_clamp_bounded [of 2048] size_clamp_bounded [of 384] by blast
qed

section \<open>The graticule\<close>

lemma range10_unfold: "lo < hi \<Longrightarrow> range10 lo hi = lo # range10 (lo + 10) hi"
  by (subst range10.simps) simp

lemma range10_empty: "\<not> lo < hi \<Longrightarrow> range10 lo hi = []"
  by (subst range10.simps) simp

lemma range10_formula:
  "range10 lo hi = map (\<lambda>i. lo + 10 * int i) [0 ..< nat ((hi - lo + 9) div 10)]"
proof (induction lo hi rule: range10.induct)
  case (1 lo hi)
  show ?case
  proof (cases "lo < hi")
    case False
    then have "(hi - lo + 9) div 10 \<le> 0" by simp
    then show ?thesis using False by (simp add: range10_empty)
  next
    case True
    define n where "n = nat ((hi - (lo + 10) + 9) div 10)"
    have "(hi - lo + 9) div 10 = (hi - (lo + 10) + 9) div 10 + 1" by simp
    moreover have "0 \<le> (hi - (lo + 10) + 9) div 10" using True by simp
    ultimately have n: "nat ((hi - lo + 9) div 10) = Suc n"
      unfolding n_def by (simp add: nat_add_distrib)
    have "range10 lo hi = lo # range10 (lo + 10) hi" using True by (rule range10_unfold)
    also have "\<dots> = lo # map (\<lambda>i. lo + 10 + 10 * int i) [0 ..< n]"
      using "1.IH" [OF True] by (simp add: n_def)
    also have "\<dots> = map (\<lambda>i. lo + 10 * int i) [0 ..< Suc n]"
      by (simp add: upt_conv_Cons map_Suc_upt [symmetric] del: upt_Suc)
    finally show ?thesis by (simp only: n)
  qed
qed

lemma range10_bounds: "a \<in> set (range10 lo hi) \<Longrightarrow> lo \<le> a \<and> a < hi \<and> (a - lo) mod 10 = 0"
  by (auto simp: range10_formula)

lemma xtick_loop_candidates:
  "xtick_loop r xtick_candidates =
     Some (if 800 < r then 800 else if 400 < r then 400 else if 200 < r then 200
           else if 100 < r then 100 else if 80 < r then 80 else if 40 < r then 40
           else if 20 < r then 20 else 10)"
  by (simp add: xtick_candidates_def)


lemma make_ok:
  assumes "sp_min g < sp_max g" and "sample_rate g \<noteq> 0"
  shows "\<not> isl (make g)"
    and "map fst (db_lines (projr (make g))) = range10 (sp_min g) (sp_max g)"
    and "Some (xtick_max (projr (make g))) =
           xtick_loop (real_of_int (sample_rate g) / 1000 / 2) xtick_candidates"
    and "map fst (freq_lines (projr (make g))) =
           [- real_of_int (xtick_max (projr (make g))), - real_of_int (xtick_max (projr (make g))) / 2, 0,
            real_of_int (xtick_max (projr (make g))) / 2, real_of_int (xtick_max (projr (make g)))]"
proof -
  have ne: "range10 (sp_min g) (sp_max g) \<noteq> []"
    using assms(1) by (simp add: range10_unfold)
  have d: "sp_max g - sp_min g \<noteq> 0" using assms(1) by simp
  obtain xt where xt: "xtick_loop (real_of_int (sample_rate g) / 1000 / 2) xtick_candidates = Some xt"
    by (simp add: xtick_loop_candidates)
  have m: "make g = Inr \<lparr> db_lines = map (\<lambda>attn. (attn,
              real_of_int (h g) - (real_of_int (attn - sp_min g) *
                (real_of_int (h g) / real_of_int (sp_max g - sp_min g)) + 3)))
              (range10 (sp_min g) (sp_max g)),
            xtick_max = xt,
            freq_lines = map (\<lambda>offset. (offset,
              offset * (real_of_int (w g) / (real_of_int (sample_rate g) / 1000)) + real_of_int (w g) / 2))
              [- real_of_int xt, - real_of_int xt / 2, 0, real_of_int xt / 2, real_of_int xt] \<rparr>"
    using ne d assms(2) xt by (simp add: make_def Let_def)
  show "\<not> isl (make g)" by (simp add: m)
  show "map fst (db_lines (projr (make g))) = range10 (sp_min g) (sp_max g)"
    by (simp add: m comp_def)
  show "Some (xtick_max (projr (make g))) =
           xtick_loop (real_of_int (sample_rate g) / 1000 / 2) xtick_candidates"
    using xt by (simp add: m)
  show "map fst (freq_lines (projr (make g))) =
           [- real_of_int (xtick_max (projr (make g))), - real_of_int (xtick_max (projr (make g))) / 2, 0,
            real_of_int (xtick_max (projr (make g))) / 2, real_of_int (xtick_max (projr (make g)))]"
    by (simp add: m)
qed

lemma xtick_largest:
  assumes "10 < r"
  shows "the (xtick_loop r xtick_candidates) \<in> set xtick_candidates"
    and "real_of_int (the (xtick_loop r xtick_candidates)) < r"
    and "\<forall>c \<in> set xtick_candidates. real_of_int c < r \<longrightarrow> c \<le> the (xtick_loop r xtick_candidates)"
  using assms by (simp_all add: xtick_loop_candidates) (simp_all add: xtick_candidates_def)

lemma xtick_fallthrough:
  assumes "r \<le> 10"
  shows "xtick_loop r xtick_candidates = Some 10"
    and "\<forall>c \<in> set xtick_candidates. \<not> real_of_int c < r"
  using assms by (simp_all add: xtick_loop_candidates) (simp_all add: xtick_candidates_def)


text \<open>
  What \<open>make\<close> does outside the valid inputs: a sample rate of 0 and an empty dB range
  end in an exception.
\<close>

lemma make_zero_rate: "make (mygraticule 0) = Inl ZeroDivisionError"
  by (simp add: make_def mygraticule_def Let_def range10_unfold)

lemma make_bad_range: "make ((mygraticule 48000)\<lparr>sp_max := - 130\<rparr>) = Inl UnboundLocalError"
  by (simp add: make_def mygraticule_def Let_def range10_empty)

text \<open>
  C8, as amended. For every dB range with \<open>sp_min < sp_max\<close> and every positive sample
  rate, \<open>make\<close> completes; its horizontal lines stand at \<open>sp_min\<close>, \<open>sp_min + 10\<close>, ...
  below \<open>sp_max\<close>; the half-span is a candidate, and for a sample rate above 20 kHz it
  is the largest candidate below \<open>sample_rate / 1000 / 2\<close>; at 20 kHz or less, where no
  candidate is below it, the half-span is 10.
\<close>

theorem make_grid:
  assumes "sp_min g < sp_max g" and "0 < sample_rate g"
  shows "\<not> isl (make g) \<and>
    map fst (db_lines (projr (make g))) =
      map (\<lambda>i. sp_min g + 10 * int i) [0 ..< nat ((sp_max g - sp_min g + 9) div 10)] \<and>
    (\<forall>a \<in> set (map fst (db_lines (projr (make g)))). sp_min g \<le> a \<and> a < sp_max g) \<and>
    xtick_max (projr (make g)) \<in> set xtick_candidates \<and>
    (20000 < sample_rate g \<longrightarrow>
       real_of_int (xtick_max (projr (make g))) < real_of_int (sample_rate g) / 1000 / 2 \<and>
       (\<forall>c \<in> set xtick_candidates. real_of_int c < real_of_int (sample_rate g) / 1000 / 2 \<longrightarrow>
          c \<le> xtick_max (projr (make g)))) \<and>
    (sample_rate g \<le> 20000 \<longrightarrow> xtick_max (projr (make g)) = 10)"
proof -
  let ?r = "real_of_int (sample_rate g) / 1000 / 2"
  have nz: "sample_rate g \<noteq> 0" using assms(2) by simp
  note ok = make_ok [OF assms(1) nz]
  have xt: "xtick_max (projr (make g)) = the (xtick_loop ?r xtick_candidates)"
    using ok(3) by (metis option.sel)
  have lines: "map fst (db_lines (projr (make g))) =
      map (\<lambda>i. sp_min g + 10 * int i) [0 ..< nat ((sp_max g - sp_min g + 9) div 10)]"
    using ok(2) by (simp only: range10_formula)
  have bounds: "\<forall>a \<in> set (map fst (db_lines (projr (make g)))). sp_min g \<le> a \<and> a < sp_max g"
    using range10_bounds [of _ "sp_min g" "sp_max g"] by (simp only: ok(2)) blast
  have cand: "xtick_max (projr (make g)) \<in> set xtick_candidates"
    unfolding xt by (simp add: xtick_loop_candidates) (simp add: xtick_candidates_def)
  have big: "20000 < sample_rate g \<longrightarrow>
       real_of_int (xtick_max (projr (make g))) < ?r \<and>
       (\<forall>c \<in> set xtick_candidates. real_of_int c < ?r \<longrightarrow> c \<le> xtick_max (projr (make g)))"
  proof
    assume "20000 < sample_rate g"
    then have "10 < ?r" by simp
    from xtick_largest(2,3) [OF this] show "real_of_int (xtick_max (projr (make g))) < ?r \<and>
       (\<forall>c \<in> set xtick_candidates. real_of_int c < ?r \<longrightarrow> c \<le> xtick_max (projr (make g)))"
      unfolding xt by blast
  qed
  have small: "sample_rate g \<le> 20000 \<longrightarrow> xtick_max (projr (make g)) = 10"
  proof
    assume "sample_rate g \<le> 20000"
    then have "?r \<le> 10" by simp
    from xtick_fallthrough(1) [OF this] show "xtick_max (projr (make g)) = 10"
      unfolding xt by simp
  qed
  from ok(1) lines bounds cand big small show ?thesis by blast
qed

theorem make_grid_witness:
  "sp_min (mygraticule 48000) < sp_max (mygraticule 48000) \<and>
   0 < sample_rate (mygraticule 48000) \<and> 20000 < sample_rate (mygraticule 48000) \<and>
   \<not> isl (make (mygraticule 48000)) \<and>
   map fst (db_lines (projr (make (mygraticule 48000)))) =
     [- 120, - 110, - 100, - 90, - 80, - 70, - 60, - 50, - 40, - 30] \<and>
   xtick_max (projr (make (mygraticule 48000))) = 20"
proof -
  have a: "sp_min (mygraticule 48000) < sp_max (mygraticule 48000)"
    and b: "0 < sample_rate (mygraticule 48000)"
    and c: "20000 < sample_rate (mygraticule 48000)"
    by (simp_all add: mygraticule_def)
  have x: "xtick_max (projr (make (mygraticule 48000))) = 20"
    by (simp add: make_def mygraticule_def Let_def range10_unfold xtick_candidates_def)
  have r: "range10 (- 120) (- 20) = [- 120, - 110, - 100, - 90, - 80, - 70, - 60, - 50, - 40, - 30]"
    by (simp add: range10_unfold range10_empty)
  have l: "map fst (db_lines (projr (make (mygraticule 48000)))) =
     [- 120, - 110, - 100, - 90, - 80, - 70, - 60, - 50, - 40, - 30]"
    using make_ok(2) [OF a] b r by (simp add: mygraticule_def)
  from make_grid [OF a b] have m: "\<not> isl (make (mygraticule 48000))"
    by (rule conjunct1)
  from a b c m l x show ?thesis by (intro conjI)
qed

text \<open>
  C8 as stated fails at 16 kHz: the half-bandwidth is 8 kHz, the half-span chosen is 10,
  which is not smaller.
\<close>

theorem make_grid_counterexample:
  "\<not> isl (make (mygraticule 16000)) \<and>
   xtick_max (projr (make (mygraticule 16000))) = 10 \<and>
   \<not> real_of_int (xtick_max (projr (make (mygraticule 16000)))) <
      real_of_int (sample_rate (mygraticule 16000)) / 1000 / 2"
  by (simp add: make_def mygraticule_def Let_def range10_unfold xtick_candidates_def)

text \<open>
  C10. For a dB range with \<open>sp_min < sp_max\<close> and a sample rate of 20 kHz or less (and
  positive), \<open>make\<close> completes with the half-span 10, the last candidate, although it is
  not below the half-bandwidth; the vertical lines stand at -10, -5, 0, 5 and 10 kHz.
\<close>

theorem make_small_rate:
  assumes "sp_min g < sp_max g" and "0 < sample_rate g" and "sample_rate g \<le> 20000"
  shows "\<not> isl (make g) \<and> xtick_max (projr (make g)) = 10 \<and>
    xtick_max (projr (make g)) = last xtick_candidates \<and>
    \<not> real_of_int (xtick_max (projr (make g))) < real_of_int (sample_rate g) / 1000 / 2 \<and>
    map fst (freq_lines (projr (make g))) = [- 10, - 5, 0, 5, 10]"
proof -
  let ?r = "real_of_int (sample_rate g) / 1000 / 2"
  have nz: "sample_rate g \<noteq> 0" using assms(2) by simp
  note ok = make_ok [OF assms(1) nz]
  have r: "?r \<le> 10" using assms(3) by simp
  have xt: "xtick_max (projr (make g)) = 10"
    using ok(3) xtick_fallthrough(1) [OF r] by simp
  have l: "last xtick_candidates = 10" by (simp add: xtick_candidates_def)
  have n: "\<not> real_of_int (xtick_max (projr (make g))) < ?r"
    using r by (simp add: xt)
  have f: "map fst (freq_lines (projr (make g))) = [- 10, - 5, 0, 5, 10]"
    using ok(4) by (simp add: xt)
  from ok(1) xt l n f show ?thesis by simp
qed

theorem make_small_rate_witness:
  "sp_min (mygraticule 8000) < sp_max (mygraticule 8000) \<and>
   0 < sample_rate (mygraticule 8000) \<and> sample_rate (mygraticule 8000) \<le> 20000 \<and>
   \<not> isl (make (mygraticule 8000)) \<and>
   xtick_max (projr (make (mygraticule 8000))) = 10 \<and>
   map fst (freq_lines (projr (make (mygraticule 8000)))) = [- 10, - 5, 0, 5, 10]"
proof -
  have a: "sp_min (mygraticule 8000) < sp_max (mygraticule 8000)"
    and b: "0 < sample_rate (mygraticule 8000)"
    and c: "sample_rate (mygraticule 8000) \<le> 20000"
    by (simp_all add: mygraticule_def)
  from make_small_rate [OF a b c]
  have m: "\<not> isl (make (mygraticule 8000))"
    and x: "xtick_max (projr (make (mygraticule 8000))) = 10"
    and f: "map fst (freq_lines (projr (make (mygraticule 8000)))) = [- 10, - 5, 0, 5, 10]"
    by blast+
  from a b c m x f show ?thesis by (intro conjI)
qed


end
